theory Spec2Isabelle
  imports Complex_Main "HOL-Library.Word"
begin

unbundle bit_operations_syntax

section \<open>Strings and numbers of the host language\<close>

text \<open>
  A JavaScript string is a sequence of 16-bit code units: \<open>str.length\<close> counts them,
  \<open>str.charCodeAt(i)\<close> reads one and \<open>str.slice(0, n)\<close> keeps the first \<open>n\<close> of them.
  The string literals of \<open>App.js\<close> are ASCII apart from the ellipsis U+2026, which is
  one code unit.
\<close>

type_synonym jstr = "16 word list"

definition lit :: "string \<Rightarrow> jstr" where
  "lit s = map of_char s"

definition ellipsis :: "16 word" where
  "ellipsis = 0x2026"

text \<open>
  Decimal rendering of a non-negative integer, as a template literal renders
  \<open>keys.length - 10\<close>, an array index or \<open>String(i)\<close>.
\<close>

definition digit :: "nat \<Rightarrow> 16 word" where
  "digit d = of_nat (48 + d)"

fun dec_nat :: "nat \<Rightarrow> jstr" where
  "dec_nat n = (if n < 10 then [digit n] else dec_nat (n div 10) @ [digit (n mod 10)])"

declare dec_nat.simps [simp del]

definition dec_int :: "int \<Rightarrow> jstr" where
  "dec_int k = (if k < 0 then lit ''-'' @ dec_nat (nat (- k)) else dec_nat (nat k))"

section \<open>hashStringToInt\<close>

text \<open>
  \<open>h\<close> is a JavaScript Number that always holds an integer below \<open>2^53\<close>, so it is an
  \<open>int\<close> here. \<open>h ^= c\<close> converts both operands with ToInt32 and yields a signed
  32-bit result; \<open>Math.imul\<close> is the signed 32-bit product. The initial value
  2166136261 is not converted before the first iteration.
\<close>

definition ToInt32 :: "int \<Rightarrow> 32 word" where
  "ToInt32 k = word_of_int k"

definition js_xor :: "int \<Rightarrow> int \<Rightarrow> int" where
  "js_xor a b = sint (ToInt32 a XOR ToInt32 b)"

definition Math_imul :: "int \<Rightarrow> int \<Rightarrow> int" where
  "Math_imul a b = sint (ToInt32 a * ToInt32 b)"

fun hash_loop :: "jstr \<Rightarrow> int \<Rightarrow> int" where
  "hash_loop [] h = h"
| "hash_loop (c # cs) h = hash_loop cs (Math_imul (js_xor h (uint c)) 16777619)"

definition hashStringToInt :: "jstr \<Rightarrow> int" where
  "hashStringToInt str = \<bar>hash_loop str 2166136261\<bar>"

text \<open>
  The hash as the specification words it: a 32-bit unsigned hash that starts from the
  offset basis and, for each character in order, XORs the character code in and
  multiplies by the prime with 32-bit unsigned wrap-around; the absolute value taken at
  the end leaves an unsigned value as it is.
\<close>

definition fnv1a_spec :: "jstr \<Rightarrow> int" where
  "fnv1a_spec s =
     \<bar>uint (foldl (\<lambda>h c. (h XOR ucast c) * 16777619) (2166136261 :: 32 word) s)\<bar>"

text \<open>
  The same steps on mathematical integers with each product wrapped around to a signed
  32-bit value, which is what \<open>Math.imul\<close> returns.
\<close>

definition wrap32 :: "int \<Rightarrow> int" where
  "wrap32 k = (k + 2 ^ 31) mod 2 ^ 32 - 2 ^ 31"

definition fnv1a_signed :: "jstr \<Rightarrow> int" where
  "fnv1a_signed s = \<bar>foldl (\<lambda>h c. wrap32 ((h XOR uint c) * 16777619)) 2166136261 s\<bar>"

section \<open>Nodes and JSON values\<close>

datatype kind =
  KObject | KArray | KString | KNumber | KBoolean | KNull | KTruncated | KMore | KUnknown

record node =
  keyPath :: jstr
  label :: jstr
  type :: kind
  sizeHint :: nat

text \<open>
  A parsed JSON value. An object is the list of its own properties in the order
  \<open>Object.keys\<close> enumerates them, each key with the value \<open>v[k]\<close> it holds. A number is
  a double; the extractor only prints it, so the number type is a parameter \<open>'n\<close> and
  its conversion to a string (\<open>`${v}`\<close>) is the parameter \<open>numstr\<close> of the functions
  below.
\<close>

datatype 'n json =
  JNull
| JBoolean bool
| JNumber 'n
| JString jstr
| JArray "'n json list"
| JObject "(jstr \<times> 'n json) list"

section \<open>jsonToNodes\<close>

definition pushNode :: "jstr \<Rightarrow> jstr \<Rightarrow> kind \<Rightarrow> nat \<Rightarrow> node list \<Rightarrow> node list" where
  "pushNode kp lbl ty sz nodes =
     nodes @ [\<lparr>keyPath = kp, label = lbl, type = ty, sizeHint = sz\<rparr>]"

text \<open>\<open>path || "root"\<close>: the empty string is falsy.\<close>

definition or_root :: "jstr \<Rightarrow> jstr" where
  "or_root path = (if path \<noteq> [] then path else lit ''root'')"

definition bool_str :: "bool \<Rightarrow> jstr" where
  "bool_str b = (if b then lit ''true'' else lit ''false'')"

text \<open>
  \<open>walk\<close> with the array \<open>nodes\<close> it appends to passed in and returned. The two
  \<open>forEach\<close> loops are left folds over the first ten children. The six branches are
  the six values \<open>t\<close> can take on a JSON value; the final \<open>unknown\<close> push of the
  source is reached by none of them. The recursion ends because a call at depth above
  3 makes no further call.
\<close>

function walk :: "('n \<Rightarrow> jstr) \<Rightarrow> nat \<Rightarrow> 'n json \<Rightarrow> jstr \<Rightarrow> nat \<Rightarrow> node list \<Rightarrow> node list" where
  "walk numstr maxNodes v path depth nodes =
     (if length nodes \<ge> maxNodes then nodes
      else if depth > 3 then
        pushNode path (or_root path @ lit '' ('' @ [ellipsis] @ lit '' )'') KTruncated 1 nodes
      else (case v of
        JObject kvs \<Rightarrow>
          (let nodes1 = pushNode path (or_root path) KObject (max 1 (min 6 (length kvs))) nodes;
               nodes2 = foldl (\<lambda>acc kv.
                          walk numstr maxNodes (snd kv)
                            (if path \<noteq> [] then path @ lit ''.'' @ fst kv else fst kv)
                            (depth + 1) acc)
                        nodes1 (take 10 kvs)
           in if length kvs > 10
              then pushNode (if path \<noteq> [] then path @ lit ''.__more__'' else lit ''__more__'')
                     (lit ''+'' @ dec_nat (length kvs - 10) @ lit '' more'') KMore 1 nodes2
              else nodes2)
      | JArray xs \<Rightarrow>
          (let nodes1 = pushNode path (or_root path) KArray (max 1 (min 6 (length xs))) nodes;
               nodes2 = foldl (\<lambda>acc ix.
                          walk numstr maxNodes (snd ix)
                            (or_root path @ lit ''['' @ dec_nat (fst ix) @ lit '']'')
                            (depth + 1) acc)
                        nodes1 (enumerate 0 (take 10 xs))
           in if length xs > 10
              then pushNode (or_root path @ lit ''.__more__'')
                     (lit ''+'' @ dec_nat (length xs - 10) @ lit '' more'') KMore 1 nodes2
              else nodes2)
      | JString s \<Rightarrow>
          (let preview = (if length s > 18 then take 18 s @ [ellipsis] else s)
           in pushNode path (or_root path @ lit '': \"'' @ preview @ lit ''\"'') KString 1 nodes)
      | JNumber n \<Rightarrow> pushNode path (or_root path @ lit '': '' @ numstr n) KNumber 1 nodes
      | JBoolean b \<Rightarrow> pushNode path (or_root path @ lit '': '' @ bool_str b) KBoolean 1 nodes
      | JNull \<Rightarrow> pushNode path (or_root path @ lit '': null'') KNull 1 nodes))"
  by pat_completeness auto
termination
  by (relation "measure (\<lambda>(numstr, maxNodes, v, path, depth, nodes). 4 - depth)") auto

declare walk.simps [simp del]

definition jsonToNodes :: "('n \<Rightarrow> jstr) \<Rightarrow> 'n json \<Rightarrow> nat \<Rightarrow> node list" where
  "jsonToNodes numstr v maxNodes = take maxNodes (walk numstr maxNodes v [] 0 [])"

section \<open>The extractor with the failures of the runtime\<close>

text \<open>
  The same two functions once more, now with what can go wrong at run time written
  out. \<open>t\<close> is computed as the source computes it, by \<open>Array.isArray\<close>, then the test
  against \<open>null\<close>, then \<open>typeof\<close> (which answers \<open>"object"\<close> for \<open>null\<close> and for arrays
  as well), and each branch then uses \<open>v\<close> the way the source does: \<open>Object.keys(v)\<close>
  and \<open>v[k]\<close> throw a TypeError on \<open>null\<close>; \<open>v.slice(0, 10).forEach\<close> throws a TypeError
  unless \<open>v\<close> is an array; the scalar branches read \<open>v\<close> as the scalar \<open>t\<close> names, and
  a value of another class there counts as a failure as well. On a JSON value \<open>t\<close> is
  one of six strings, so the test for \<open>"null"\<close> is the last one and the \<open>unknown\<close> push
  after it has no branch. Every nested call of \<open>walk\<close> takes one frame of a call stack
  of \<open>stack\<close> frames, and a call with no frame left fails with a RangeError.
\<close>

datatype error = TypeError | RangeError

datatype tag = T_array | T_null | T_object | T_string | T_number | T_boolean

definition Array_isArray :: "'n json \<Rightarrow> bool" where
  "Array_isArray v = (case v of JArray xs \<Rightarrow> True | _ \<Rightarrow> False)"

definition typeof :: "'n json \<Rightarrow> tag" where
  "typeof v = (case v of
      JNull \<Rightarrow> T_object | JArray xs \<Rightarrow> T_object | JObject kvs \<Rightarrow> T_object
    | JString s \<Rightarrow> T_string | JNumber n \<Rightarrow> T_number | JBoolean b \<Rightarrow> T_boolean)"

definition type_tag :: "'n json \<Rightarrow> tag" where
  "type_tag v = (if Array_isArray v then T_array else if v = JNull then T_null else typeof v)"

text \<open>\<open>Object.keys(v)\<close> together with \<open>v[k]\<close> for each key \<open>k\<close> it lists.\<close>

definition own_entries :: "'n json \<Rightarrow> error + (jstr \<times> 'n json) list" where
  "own_entries v = (case v of
      JNull \<Rightarrow> Inl TypeError
    | JObject kvs \<Rightarrow> Inr kvs
    | JArray xs \<Rightarrow> Inr (map (\<lambda>ix. (dec_nat (fst ix), snd ix)) (enumerate 0 xs))
    | JString s \<Rightarrow> Inr (map (\<lambda>ic. (dec_nat (fst ic), JString [snd ic])) (enumerate 0 s))
    | JNumber n \<Rightarrow> Inr []
    | JBoolean b \<Rightarrow> Inr [])"

definition array_items :: "'n json \<Rightarrow> error + 'n json list" where
  "array_items v = (case v of JArray xs \<Rightarrow> Inr xs | _ \<Rightarrow> Inl TypeError)"

definition string_units :: "'n json \<Rightarrow> error + jstr" where
  "string_units v = (case v of JString s \<Rightarrow> Inr s | _ \<Rightarrow> Inl TypeError)"

definition number_value :: "'n json \<Rightarrow> error + 'n" where
  "number_value v = (case v of JNumber n \<Rightarrow> Inr n | _ \<Rightarrow> Inl TypeError)"

definition boolean_value :: "'n json \<Rightarrow> error + bool" where
  "boolean_value v = (case v of JBoolean b \<Rightarrow> Inr b | _ \<Rightarrow> Inl TypeError)"

text \<open>\<open>forEach\<close> with a callback that can throw: the first failure ends the loop.\<close>

fun for_each :: "('a \<Rightarrow> 's \<Rightarrow> error + 's) \<Rightarrow> 'a list \<Rightarrow> 's \<Rightarrow> error + 's" where
  "for_each f [] s = Inr s"
| "for_each f (a # as) s = (case f a s of Inl e \<Rightarrow> Inl e | Inr s' \<Rightarrow> for_each f as s')"

fun walk_rt :: "nat \<Rightarrow> ('n \<Rightarrow> jstr) \<Rightarrow> nat \<Rightarrow> 'n json \<Rightarrow> jstr \<Rightarrow> nat \<Rightarrow> node list
    \<Rightarrow> error + node list" where
  "walk_rt 0 numstr maxNodes v path depth nodes = Inl RangeError"
| "walk_rt (Suc stack) numstr maxNodes v path depth nodes =
     (if length nodes \<ge> maxNodes then Inr nodes
      else let t = type_tag v in
      if depth > 3 then
        Inr (pushNode path (or_root path @ lit '' ('' @ [ellipsis] @ lit '' )'') KTruncated 1 nodes)
      else if t = T_object then
        (case own_entries v of Inl e \<Rightarrow> Inl e | Inr kvs \<Rightarrow>
          (case for_each (\<lambda>kv acc.
                    walk_rt stack numstr maxNodes (snd kv)
                      (if path \<noteq> [] then path @ lit ''.'' @ fst kv else fst kv)
                      (depth + 1) acc)
                  (take 10 kvs)
                  (pushNode path (or_root path) KObject (max 1 (min 6 (length kvs))) nodes) of
             Inl e \<Rightarrow> Inl e
           | Inr nodes2 \<Rightarrow>
               if length kvs > 10
               then Inr (pushNode
                      (if path \<noteq> [] then path @ lit ''.__more__'' else lit ''__more__'')
                      (lit ''+'' @ dec_nat (length kvs - 10) @ lit '' more'') KMore 1 nodes2)
               else Inr nodes2))
      else if t = T_array then
        (case array_items v of Inl e \<Rightarrow> Inl e | Inr xs \<Rightarrow>
          (case for_each (\<lambda>ix acc.
                    walk_rt stack numstr maxNodes (snd ix)
                      (or_root path @ lit ''['' @ dec_nat (fst ix) @ lit '']'')
                      (depth + 1) acc)
                  (enumerate 0 (take 10 xs))
                  (pushNode path (or_root path) KArray (max 1 (min 6 (length xs))) nodes) of
             Inl e \<Rightarrow> Inl e
           | Inr nodes2 \<Rightarrow>
               if length xs > 10
               then Inr (pushNode (or_root path @ lit ''.__more__'')
                      (lit ''+'' @ dec_nat (length xs - 10) @ lit '' more'') KMore 1 nodes2)
               else Inr nodes2))
      else if t = T_string then
        (case string_units v of Inl e \<Rightarrow> Inl e | Inr s \<Rightarrow>
          (let preview = (if length s > 18 then take 18 s @ [ellipsis] else s)
           in Inr (pushNode path (or_root path @ lit '': \"'' @ preview @ lit ''\"'')
                     KString 1 nodes)))
      else if t = T_number then
        (case number_value v of Inl e \<Rightarrow> Inl e | Inr n \<Rightarrow>
          Inr (pushNode path (or_root path @ lit '': '' @ numstr n) KNumber 1 nodes))
      else if t = T_boolean then
        (case boolean_value v of Inl e \<Rightarrow> Inl e | Inr b \<Rightarrow>
          Inr (pushNode path (or_root path @ lit '': '' @ bool_str b) KBoolean 1 nodes))
      else Inr (pushNode path (or_root path @ lit '': null'') KNull 1 nodes))"

definition jsonToNodes_rt :: "nat \<Rightarrow> ('n \<Rightarrow> jstr) \<Rightarrow> 'n json \<Rightarrow> nat \<Rightarrow> error + node list" where
  "jsonToNodes_rt stack numstr v maxNodes =
     (case walk_rt stack numstr maxNodes v [] 0 [] of
        Inl e \<Rightarrow> Inl e
      | Inr nodes \<Rightarrow> Inr (take maxNodes nodes))"

section \<open>The layout of ToonScene\<close>

text \<open>
  The coordinates are doubles. They are kept as the arithmetic expressions the source
  evaluates, operand order included; \<open>ideal\<close> reads such an expression in exact real
  arithmetic, which is what the doubles approximate.
\<close>

datatype dexpr = Lit real | Add dexpr dexpr | Mul dexpr dexpr | Cos dexpr | Sin dexpr

fun ideal :: "dexpr \<Rightarrow> real" where
  "ideal (Lit r) = r"
| "ideal (Add a b) = ideal a + ideal b"
| "ideal (Mul a b) = ideal a * ideal b"
| "ideal (Cos a) = cos (ideal a)"
| "ideal (Sin a) = sin (ideal a)"

text \<open>
  \<open>{ ...n, x, y, fill, size, seed }\<close>: the node's own fields and five more. The fields
  \<open>x\<close>, \<open>y\<close> and \<open>size\<close> of the source are \<open>pos_x\<close>, \<open>pos_y\<close> and \<open>diameter\<close> here.
\<close>

record placed = node +
  pos_x :: dexpr
  pos_y :: dexpr
  fill :: jstr
  diameter :: nat
  seed :: int

text \<open>The remainder operator \<open>%\<close> of JavaScript takes the sign of the dividend.\<close>

definition js_rem :: "int \<Rightarrow> int \<Rightarrow> int" where
  "js_rem a b = sgn a * (\<bar>a\<bar> mod \<bar>b\<bar>)"

definition intToHsl :: "int \<Rightarrow> nat \<Rightarrow> nat \<Rightarrow> jstr" where
  "intToHsl n s l =
     (let hue = js_rem n 360
      in lit ''hsl('' @ dec_int hue @ lit '' '' @ dec_nat s @ lit ''% '' @ dec_nat l @ lit ''%)'')"

definition viewBoxW :: dexpr where
  "viewBoxW = Lit 900"

definition viewBoxH :: dexpr where
  "viewBoxH = Lit 520"

definition place :: "nat \<Rightarrow> node \<Rightarrow> placed" where
  "place i n =
     (let centerX = Mul viewBoxW (Lit 0.55);
          centerY = Mul viewBoxH (Lit 0.52);
          angle = Mul (Lit (of_nat i)) (Lit 0.62);
          radius = Add (Lit 30) (Mul (Lit (of_nat i)) (Lit 7.5));
          x = Add centerX (Mul (Cos angle) radius);
          y = Add centerY (Mul (Mul (Sin angle) radius) (Lit 0.75));
          sd = hashStringToInt
                 (if keyPath n \<noteq> [] then keyPath n
                  else if label n \<noteq> [] then label n else dec_nat i);
          fl = (if type n = KObject then lit ''var(--accent-primary)''
                else if type n = KArray then lit ''var(--accent-success)''
                else intToHsl sd 78 56);
          sizeBase = (if type n = KObject then 64 else if type n = KArray then 58
                      else if type n = KString then 44 else 42);
          sz = sizeBase + min 30 ((if sizeHint n \<noteq> 0 then sizeHint n else 1) * 6)
      in \<lparr>keyPath = keyPath n, label = label n, type = type n, sizeHint = sizeHint n,
          pos_x = x, pos_y = y, fill = fl, diameter = sz, seed = sd\<rparr>)"

definition layout :: "node list \<Rightarrow> placed list" where
  "layout nodes = map (\<lambda>ni. place (fst ni) (snd ni)) (enumerate 0 nodes)"

section \<open>The hash\<close>

lemma sint_wrap32: "sint (word_of_int k :: 32 word) = wrap32 k"
  by (simp add: int_word_sint wrap32_def)

lemma hash_step: "Math_imul (js_xor h (uint c)) 16777619 = wrap32 ((h XOR uint c) * 16777619)"
proof -
  have "ToInt32 (js_xor h (uint c)) = word_of_int (h XOR uint c)"
    by (simp only: js_xor_def ToInt32_def of_int_sint word_wi_log_defs scast_id)
  then have "ToInt32 (js_xor h (uint c)) * ToInt32 16777619
      = word_of_int ((h XOR uint c) * 16777619)"
    by (simp only: ToInt32_def wi_hom_mult)
  then show ?thesis
    by (simp only: Math_imul_def sint_wrap32)
qed

lemma hash_loop_foldl:
  "hash_loop s h = foldl (\<lambda>h c. wrap32 ((h XOR uint c) * 16777619)) h s"
  by (induction s arbitrary: h) (simp_all add: hash_step)

lemma hashStringToInt_nonneg: "0 \<le> hashStringToInt s"
  by (simp add: hashStringToInt_def)

lemma wrap32_range: "- (2 ^ 31) \<le> wrap32 k \<and> wrap32 k < 2 ^ 31"
proof -
  have "0 \<le> (k + 2 ^ 31) mod 2 ^ 32" "(k + 2 ^ 31) mod 2 ^ 32 < (2 ^ 32 :: int)"
    by simp_all
  then show ?thesis unfolding wrap32_def by simp
qed

lemma hash_loop_range:
  "- (2 ^ 31) \<le> h \<and> h < 2 ^ 32
   \<Longrightarrow> - (2 ^ 31) \<le> hash_loop s h \<and> hash_loop s h < 2 ^ 32"
proof (induction s arbitrary: h)
  case Nil
  then show ?case by simp
next
  case (Cons c cs)
  have "- (2 ^ 31) \<le> wrap32 ((h XOR uint c) * 16777619)
      \<and> wrap32 ((h XOR uint c) * 16777619) < 2 ^ 32"
    using wrap32_range [of "(h XOR uint c) * 16777619"] by simp
  then have "- (2 ^ 31) \<le> hash_loop cs (wrap32 ((h XOR uint c) * 16777619))
      \<and> hash_loop cs (wrap32 ((h XOR uint c) * 16777619)) < 2 ^ 32"
    by (rule Cons.IH)
  then show ?case by (simp add: hash_step)
qed

lemma hashStringToInt_less: "hashStringToInt s < 2 ^ 32"
  using hash_loop_range [of 2166136261 s] unfolding hashStringToInt_def by (simp add: abs_if)

lemma word_hash_step:
  "(word_of_int (Math_imul (js_xor h (uint c)) 16777619) :: 32 word)
     = (word_of_int h XOR ucast c) * 16777619"
proof -
  have "ToInt32 (js_xor h (uint c)) = word_of_int h XOR ucast c"
    by (simp add: js_xor_def ToInt32_def)
  then show ?thesis
    by (simp add: Math_imul_def ToInt32_def)
qed

lemma word_hash_loop:
  "(word_of_int (hash_loop s h) :: 32 word)
     = foldl (\<lambda>w c. (w XOR ucast c) * 16777619) (word_of_int h) s"
  by (induction s arbitrary: h) (simp_all add: word_hash_step)

lemma hash_loop_signed_range:
  "s \<noteq> [] \<Longrightarrow> - (2 ^ 31) \<le> hash_loop s h \<and> hash_loop s h < 2 ^ 31"
proof (induction s arbitrary: h)
  case Nil
  then show ?case by simp
next
  case (Cons c cs)
  show ?case
  proof (cases "cs = []")
    case True
    then show ?thesis
      using wrap32_range [of "(h XOR uint c) * 16777619"] by (simp add: hash_step)
  next
    case False
    then show ?thesis using Cons.IH by simp
  qed
qed

lemma wrap32_uint:
  "0 \<le> u \<Longrightarrow> u < 2 ^ 32 \<Longrightarrow> wrap32 u = (if u < 2 ^ 31 then u else u - 2 ^ 32)"
proof (cases "u < 2 ^ 31")
  case True
  assume "0 \<le> u"
  with True have "(u + 2 ^ 31) mod 2 ^ 32 = u + 2 ^ 31" by (simp add: mod_pos_pos_trivial)
  with True show ?thesis by (simp add: wrap32_def)
next
  case False
  assume u: "u < 2 ^ 32"
  have "(u + 2 ^ 31) mod 2 ^ 32 = (u + 2 ^ 31 - 2 ^ 32) mod 2 ^ 32"
    by (metis mod_diff_right_eq mod_self diff_zero)
  also have "\<dots> = u + 2 ^ 31 - 2 ^ 32" using False u by (simp add: mod_pos_pos_trivial)
  finally show ?thesis using False by (simp add: wrap32_def)
qed

lemma wrap32_id: "- (2 ^ 31) \<le> k \<Longrightarrow> k < 2 ^ 31 \<Longrightarrow> wrap32 k = k"
proof -
  assume "- (2 ^ 31) \<le> k" "k < 2 ^ 31"
  then have "(k + 2 ^ 31) mod 2 ^ 32 = k + 2 ^ 31" by (simp add: mod_pos_pos_trivial)
  then show ?thesis by (simp add: wrap32_def)
qed

text \<open>
  After at least one character the value of the code is the absolute value of the
  unsigned hash read as a signed 32-bit number.
\<close>

lemma hashStringToInt_unsigned:
  assumes "s \<noteq> []"
  shows "hashStringToInt s =
     (if fnv1a_spec s < 2 ^ 31 then fnv1a_spec s else 2 ^ 32 - fnv1a_spec s)"
proof -
  let ?w = "foldl (\<lambda>h c. (h XOR ucast c) * 16777619) (2166136261 :: 32 word) s"
  have u: "fnv1a_spec s = uint ?w" by (simp add: fnv1a_spec_def)
  have r: "- (2 ^ 31) \<le> hash_loop s 2166136261 \<and> hash_loop s 2166136261 < 2 ^ 31"
    using assms by (rule hash_loop_signed_range)
  have "(word_of_int (hash_loop s 2166136261) :: 32 word) = ?w"
    using word_hash_loop [of s 2166136261] by simp
  then have "sint ?w = wrap32 (hash_loop s 2166136261)"
    by (simp only: sint_wrap32 [symmetric])
  then have h: "hash_loop s 2166136261 = sint ?w" using r by (simp add: wrap32_id)
  have "sint ?w = wrap32 (uint ?w)"
    by (simp only: sint_wrap32 [symmetric] word_of_int_uint)
  also have "\<dots> = (if uint ?w < 2 ^ 31 then uint ?w else uint ?w - 2 ^ 32)"
    by (rule wrap32_uint) (use uint_lt2p [of ?w] in simp_all)
  finally have "sint ?w = (if uint ?w < 2 ^ 31 then uint ?w else uint ?w - 2 ^ 32)" .
  moreover have "uint ?w < 2 ^ 32" using uint_lt2p [of ?w] by simp
  ultimately show ?thesis unfolding hashStringToInt_def h u by (simp add: abs_if)
qed

lemma hashStringToInt_empty: "hashStringToInt [] = 2166136261"
  by (simp add: hashStringToInt_def)

lemma fnv1a_spec_empty: "fnv1a_spec [] = 2166136261"
  by (simp add: fnv1a_spec_def)

text \<open>
  C6 (as the code has it). For every string, \<open>hashStringToInt\<close> starts from the offset
  basis 2166136261 and, for each character in order, XORs the character code in and
  multiplies by 16777619, each product wrapped around to a signed 32-bit value, and
  takes the absolute value at the end. With \<open>u\<close> the unsigned 32-bit FNV-1a hash of
  the specification, the result is \<open>u\<close> when the string is empty or \<open>u\<close> is below
  \<open>2^31\<close>, and \<open>2^32 - u\<close> otherwise. It is never negative and below \<open>2^32\<close>, and equal
  strings give equal values.
\<close>

theorem hashStringToInt_fnv1a:
  "hashStringToInt s = fnv1a_signed s
   \<and> hashStringToInt s
       = (if s = [] \<or> fnv1a_spec s < 2 ^ 31 then fnv1a_spec s else 2 ^ 32 - fnv1a_spec s)
   \<and> 0 \<le> hashStringToInt s \<and> hashStringToInt s < 2 ^ 32
   \<and> (\<forall>t. t = s \<longrightarrow> hashStringToInt t = hashStringToInt s)"
proof (intro conjI allI impI)
  show "hashStringToInt s = fnv1a_signed s"
    by (simp add: hashStringToInt_def fnv1a_signed_def hash_loop_foldl)
  show "hashStringToInt s
       = (if s = [] \<or> fnv1a_spec s < 2 ^ 31 then fnv1a_spec s else 2 ^ 32 - fnv1a_spec s)"
  proof (cases "s = []")
    case True
    then show ?thesis by (simp add: hashStringToInt_empty fnv1a_spec_empty)
  next
    case False
    then show ?thesis using hashStringToInt_unsigned [OF False] by simp
  qed
  show "0 \<le> hashStringToInt s" by (rule hashStringToInt_nonneg)
  show "hashStringToInt s < 2 ^ 32" by (rule hashStringToInt_less)
  show "hashStringToInt t = hashStringToInt s" if "t = s" for t
    using that by simp
qed

theorem hashStringToInt_fnv1a_witness:
  "lit ''a'' \<noteq> [] \<and> \<not> fnv1a_spec (lit ''a'') < 2 ^ 31
   \<and> hashStringToInt (lit ''a'') = 2 ^ 32 - fnv1a_spec (lit ''a'')
   \<and> hashStringToInt (lit ''a'') = 468965076
   \<and> hashStringToInt (lit ''a'') = fnv1a_signed (lit ''a'')"
proof -
  have u: "fnv1a_spec (lit ''a'') = 3826002220"
    by (simp add: fnv1a_spec_def lit_def)
  have n: "lit ''a'' \<noteq> []"
    by (simp add: lit_def)
  show ?thesis
    using hashStringToInt_fnv1a [of "lit ''a''"] n unfolding u by simp
qed

text \<open>
  C6 as the specification states it fails on the string \<open>a\<close>: its unsigned 32-bit
  FNV-1a hash is 3826002220, and the code returns 468965076.
\<close>

theorem hashStringToInt_fnv1a_counterexample:
  "hashStringToInt (lit ''a'') = 468965076 \<and> fnv1a_spec (lit ''a'') = 3826002220
   \<and> hashStringToInt (lit ''a'') \<noteq> fnv1a_spec (lit ''a'')"
  by (simp add: hashStringToInt_def fnv1a_spec_def lit_def Math_imul_def js_xor_def
        ToInt32_def)

section \<open>The branches of walk\<close>

lemma foldl_invariant:
  assumes "I a" and "\<And>acc x. x \<in> set xs \<Longrightarrow> I acc \<Longrightarrow> I (f acc x)"
  shows "I (foldl f a xs)"
  using assms by (induction xs arbitrary: a) auto

lemma walk_at_cap:
  "maxNodes \<le> length nodes \<Longrightarrow> walk numstr maxNodes v path depth nodes = nodes"
  by (subst walk.simps) simp

lemma walk_deep:
  "length nodes < maxNodes \<Longrightarrow> 3 < depth \<Longrightarrow>
   walk numstr maxNodes v path depth nodes =
     pushNode path (or_root path @ lit '' ('' @ [ellipsis] @ lit '' )'') KTruncated 1 nodes"
  by (subst walk.simps) simp

lemma walk_object:
  "length nodes < maxNodes \<Longrightarrow> depth \<le> 3 \<Longrightarrow>
   walk numstr maxNodes (JObject kvs) path depth nodes =
     (let nodes2 = foldl (\<lambda>acc kv.
                          walk numstr maxNodes (snd kv)
                            (if path \<noteq> [] then path @ lit ''.'' @ fst kv else fst kv)
                            (depth + 1) acc)
                        (pushNode path (or_root path) KObject (max 1 (min 6 (length kvs))) nodes)
                        (take 10 kvs)
      in if length kvs > 10
         then pushNode (if path \<noteq> [] then path @ lit ''.__more__'' else lit ''__more__'')
                (lit ''+'' @ dec_nat (length kvs - 10) @ lit '' more'') KMore 1 nodes2
         else nodes2)"
  by (subst walk.simps) (simp add: Let_def)

lemma walk_array:
  "length nodes < maxNodes \<Longrightarrow> depth \<le> 3 \<Longrightarrow>
   walk numstr maxNodes (JArray xs) path depth nodes =
     (let nodes2 = foldl (\<lambda>acc ix.
                          walk numstr maxNodes (snd ix)
                            (or_root path @ lit ''['' @ dec_nat (fst ix) @ lit '']'')
                            (depth + 1) acc)
                        (pushNode path (or_root path) KArray (max 1 (min 6 (length xs))) nodes)
                        (enumerate 0 (take 10 xs))
      in if length xs > 10
         then pushNode (or_root path @ lit ''.__more__'')
                (lit ''+'' @ dec_nat (length xs - 10) @ lit '' more'') KMore 1 nodes2
         else nodes2)"
  by (subst walk.simps) (simp add: Let_def)

lemma walk_string:
  "length nodes < maxNodes \<Longrightarrow> depth \<le> 3 \<Longrightarrow>
   walk numstr maxNodes (JString s) path depth nodes =
     pushNode path
       (or_root path @ lit '': \"''
          @ (if length s > 18 then take 18 s @ [ellipsis] else s) @ lit ''\"'')
       KString 1 nodes"
  by (subst walk.simps) (simp add: Let_def)

lemma walk_number:
  "length nodes < maxNodes \<Longrightarrow> depth \<le> 3 \<Longrightarrow>
   walk numstr maxNodes (JNumber n) path depth nodes =
     pushNode path (or_root path @ lit '': '' @ numstr n) KNumber 1 nodes"
  by (subst walk.simps) simp

lemma walk_boolean:
  "length nodes < maxNodes \<Longrightarrow> depth \<le> 3 \<Longrightarrow>
   walk numstr maxNodes (JBoolean b) path depth nodes =
     pushNode path (or_root path @ lit '': '' @ bool_str b) KBoolean 1 nodes"
  by (subst walk.simps) simp

lemma walk_null:
  "length nodes < maxNodes \<Longrightarrow> depth \<le> 3 \<Longrightarrow>
   walk numstr maxNodes JNull path depth nodes =
     pushNode path (or_root path @ lit '': null'') KNull 1 nodes"
  by (subst walk.simps) simp

lemmas walk_cases = walk_at_cap walk_deep walk_object walk_array walk_string walk_number
  walk_boolean walk_null

section \<open>The length of the result\<close>

text \<open>
  C1. For every JSON value and every cap, the sequence \<open>jsonToNodes\<close> returns has at
  most \<open>maxNodes\<close> nodes.
\<close>

theorem jsonToNodes_length_le_cap: "length (jsonToNodes numstr v maxNodes) \<le> maxNodes"
  by (simp add: jsonToNodes_def)

section \<open>Weights\<close>

lemma walk_weights:
  "\<forall>n\<in>set nodes. 1 \<le> sizeHint n \<and> sizeHint n \<le> 6
       \<and> (type n \<noteq> KObject \<and> type n \<noteq> KArray \<longrightarrow> sizeHint n = 1)
   \<Longrightarrow> \<forall>n\<in>set (walk numstr maxNodes v path depth nodes).
         1 \<le> sizeHint n \<and> sizeHint n \<le> 6
         \<and> (type n \<noteq> KObject \<and> type n \<noteq> KArray \<longrightarrow> sizeHint n = 1)"
proof (induction numstr maxNodes v path depth nodes rule: walk.induct)
  case (1 numstr maxNodes v path depth nodes)
  let ?W = "\<lambda>ns::node list. \<forall>n\<in>set ns. 1 \<le> sizeHint n \<and> sizeHint n \<le> 6
       \<and> (type n \<noteq> KObject \<and> type n \<noteq> KArray \<longrightarrow> sizeHint n = 1)"
  show ?case
  proof (cases "maxNodes \<le> length nodes \<or> 3 < depth")
    case True
    then show ?thesis using "1.prems"
      by (cases "maxNodes \<le> length nodes") (auto simp: walk_at_cap walk_deep pushNode_def)
  next
    case False
    then have c: "\<not> maxNodes \<le> length nodes" "\<not> 3 < depth" by auto
    then have c': "length nodes < maxNodes" "depth \<le> 3" by auto
    show ?thesis
    proof (cases v)
      case (JObject kvs)
      let ?n1 = "pushNode path (or_root path) KObject (max 1 (min 6 (length kvs))) nodes"
      have w1: "?W ?n1" using "1.prems" by (auto simp: pushNode_def)
      have "?W (foldl (\<lambda>acc kv. walk numstr maxNodes (snd kv)
                            (if path \<noteq> [] then path @ lit ''.'' @ fst kv else fst kv)
                            (depth + 1) acc) ?n1 (take 10 kvs))"
        by (rule foldl_invariant [where I = ?W, OF w1])
           (rule "1.IH"(2) [OF c JObject refl], assumption+)
      then show ?thesis unfolding JObject walk_object [OF c']
        by (simp add: Let_def pushNode_def)
    next
      case (JArray xs)
      let ?n1 = "pushNode path (or_root path) KArray (max 1 (min 6 (length xs))) nodes"
      have w1: "?W ?n1" using "1.prems" by (auto simp: pushNode_def)
      have "?W (foldl (\<lambda>acc ix. walk numstr maxNodes (snd ix)
                            (or_root path @ lit ''['' @ dec_nat (fst ix) @ lit '']'')
                            (depth + 1) acc) ?n1 (enumerate 0 (take 10 xs)))"
        by (rule foldl_invariant [where I = ?W, OF w1])
           (rule "1.IH"(1) [OF c JArray refl], assumption+)
      then show ?thesis unfolding JArray walk_array [OF c']
        by (simp add: Let_def pushNode_def)
    qed (use c' "1.prems" in \<open>auto simp: walk_cases pushNode_def\<close>)
  qed
qed

lemma jsonToNodes_weight_range:
  assumes "n \<in> set (jsonToNodes numstr v maxNodes)"
  shows "1 \<le> sizeHint n \<and> sizeHint n \<le> 6
       \<and> (type n \<noteq> KObject \<and> type n \<noteq> KArray \<longrightarrow> sizeHint n = 1)"
proof -
  have "n \<in> set (walk numstr maxNodes v [] 0 [])"
    using assms unfolding jsonToNodes_def by (rule in_set_takeD)
  moreover have "\<forall>n\<in>set (walk numstr maxNodes v [] 0 []).
      1 \<le> sizeHint n \<and> sizeHint n \<le> 6
      \<and> (type n \<noteq> KObject \<and> type n \<noteq> KArray \<longrightarrow> sizeHint n = 1)"
    by (rule walk_weights) simp
  ultimately show ?thesis by blast
qed

text \<open>
  C10. Every node \<open>jsonToNodes\<close> returns has a weight between 1 and 6: the weight of
  an object or array is its number of children clamped to that range, every other
  node has weight 1. So the layout adds \<open>6 * weight\<close>, cut at 30, to the base diameter.
\<close>

theorem jsonToNodes_weights:
  "\<forall>n\<in>set (jsonToNodes numstr v maxNodes).
     1 \<le> sizeHint n \<and> sizeHint n \<le> 6
     \<and> (type n \<noteq> KObject \<and> type n \<noteq> KArray \<longrightarrow> sizeHint n = 1)
     \<and> (\<forall>i. diameter (place i n) =
            (if type n = KObject then 64 else if type n = KArray then 58
             else if type n = KString then 44 else 42) + min 30 (6 * sizeHint n)
          \<and> min 30 (6 * sizeHint n) \<le> 30)"
proof
  fix n assume n: "n \<in> set (jsonToNodes numstr v maxNodes)"
  note w = jsonToNodes_weight_range [OF n]
  then have "sizeHint n \<noteq> 0" by auto
  then have "\<forall>i. diameter (place i n) =
            (if type n = KObject then 64 else if type n = KArray then 58
             else if type n = KString then 44 else 42) + min 30 (6 * sizeHint n)"
    by (simp add: place_def Let_def mult.commute)
  with w show "1 \<le> sizeHint n \<and> sizeHint n \<le> 6
     \<and> (type n \<noteq> KObject \<and> type n \<noteq> KArray \<longrightarrow> sizeHint n = 1)
     \<and> (\<forall>i. diameter (place i n) =
            (if type n = KObject then 64 else if type n = KArray then 58
             else if type n = KString then 44 else 42) + min 30 (6 * sizeHint n)
          \<and> min 30 (6 * sizeHint n) \<le> 30)"
    by simp
qed

theorem jsonToNodes_weights_witness:
  "jsonToNodes dec_nat (JObject []) 60
     = [\<lparr>keyPath = [], label = lit ''root'', type = KObject, sizeHint = 1\<rparr>]
   \<and> diameter (place 0 \<lparr>keyPath = [], label = lit ''root'', type = KObject, sizeHint = 1\<rparr>) = 70"
proof -
  have e: "jsonToNodes dec_nat (JObject []) 60
     = [\<lparr>keyPath = [], label = lit ''root'', type = KObject, sizeHint = 1\<rparr>]"
    by (simp add: jsonToNodes_def walk_cases pushNode_def or_root_def)
  show ?thesis
    using jsonToNodes_weights [of dec_nat "JObject []" 60] unfolding e by simp
qed


section \<open>Depth cutoff, width cutoff and string previews\<close>

text \<open>
  C3 (as the code has it). A call of \<open>walk\<close> at depth above 3 that finds the
  accumulated count below the cap appends exactly one node of kind \<open>truncated\<close>, with
  the path of the subtree and the label \<open><path or 'root'> (\<dots> )\<close>, where a space
  follows the ellipsis, and does not look at the value: any other value at that place
  gives the same result.
\<close>

theorem walk_depth_cutoff:
  "3 < depth \<Longrightarrow> length nodes < maxNodes \<Longrightarrow>
   walk numstr maxNodes v path depth nodes =
     nodes @ [\<lparr>keyPath = path,
               label = (if path \<noteq> [] then path else lit ''root'')
                        @ lit '' ('' @ [ellipsis] @ lit '' )'',
               type = KTruncated, sizeHint = 1\<rparr>]
   \<and> walk numstr maxNodes v' path depth nodes = walk numstr maxNodes v path depth nodes"
  by (simp add: walk_deep pushNode_def or_root_def)

theorem walk_depth_cutoff_witness:
  "(3::nat) < 4 \<and> (0::nat) < 60 \<and>
   walk dec_nat 60 (JObject [(lit ''e'', JNumber 1)]) (lit ''a.b.c.d'') 4 []
     = [\<lparr>keyPath = lit ''a.b.c.d'',
         label = lit ''a.b.c.d ('' @ [ellipsis] @ lit '' )'',
         type = KTruncated, sizeHint = 1\<rparr>]"
  using walk_depth_cutoff [of 4 "[]" 60 dec_nat "JObject [(lit ''e'', JNumber 1)]"
      "lit ''a.b.c.d''"]
  by (simp add: lit_def)

text \<open>
  C3 as the specification states it fails twice on five nested objects: with the cap
  of 60 the label of the truncated node is not \<open>a.b.c.d (\<dots>)\<close>, and with a cap of 4
  the subtree at depth 4 is reached and gets no node at all.
\<close>

theorem walk_depth_cutoff_counterexample:
  "label (last (jsonToNodes dec_nat
     (JObject [(lit ''a'', JObject [(lit ''b'', JObject [(lit ''c'', JObject [(lit ''d'',
        JObject [(lit ''e'', JNumber 1)])])])])]) 60))
     \<noteq> lit ''a.b.c.d ('' @ [ellipsis] @ lit '')''
   \<and> map type (jsonToNodes dec_nat
     (JObject [(lit ''a'', JObject [(lit ''b'', JObject [(lit ''c'', JObject [(lit ''d'',
        JObject [(lit ''e'', JNumber 1)])])])])]) 4)
     = [KObject, KObject, KObject, KObject]"
  by (simp add: jsonToNodes_def walk_cases pushNode_def or_root_def lit_def ellipsis_def)

text \<open>The five nested objects of the specification, with the cap of the application.\<close>

lemma nested_five_levels:
  "jsonToNodes dec_nat
     (JObject [(lit ''a'', JObject [(lit ''b'', JObject [(lit ''c'', JObject [(lit ''d'',
        JObject [(lit ''e'', JNumber 1)])])])])]) 60
   = [\<lparr>keyPath = [], label = lit ''root'', type = KObject, sizeHint = 1\<rparr>,
      \<lparr>keyPath = lit ''a'', label = lit ''a'', type = KObject, sizeHint = 1\<rparr>,
      \<lparr>keyPath = lit ''a.b'', label = lit ''a.b'', type = KObject, sizeHint = 1\<rparr>,
      \<lparr>keyPath = lit ''a.b.c'', label = lit ''a.b.c'', type = KObject, sizeHint = 1\<rparr>,
      \<lparr>keyPath = lit ''a.b.c.d'', label = lit ''a.b.c.d ('' @ [ellipsis] @ lit '' )'',
        type = KTruncated, sizeHint = 1\<rparr>]"
  by (simp add: jsonToNodes_def walk_cases pushNode_def or_root_def lit_def)

text \<open>
  C4. A call of \<open>walk\<close> on an object or an array at depth at most 3 and below the cap
  appends the node of the container, then walks its first ten children in their order
  (the first ten keys of an object, the first ten elements of an array with their
  indices), and, when the container has more than ten children, appends one node of
  kind \<open>more\<close> labelled \<open>+<number of children - 10> more\<close>; its path is
  \<open>path.__more__\<close>, or \<open>__more__\<close> for an object at the root and \<open>root.__more__\<close> for
  an array at the root. The children after the tenth matter through their number only:
  two containers with the same first ten children and as many children give the same
  nodes.
\<close>

theorem walk_width_cutoff:
  assumes "length nodes < maxNodes" and "depth \<le> 3"
  shows "walk numstr maxNodes (JObject kvs) path depth nodes =
      foldl (\<lambda>acc kv. walk numstr maxNodes (snd kv)
               (if path \<noteq> [] then path @ lit ''.'' @ fst kv else fst kv) (depth + 1) acc)
        (nodes @ [\<lparr>keyPath = path, label = (if path \<noteq> [] then path else lit ''root''),
                   type = KObject, sizeHint = max 1 (min 6 (length kvs))\<rparr>])
        (take 10 kvs)
      @ (if 10 < length kvs
         then [\<lparr>keyPath = (if path \<noteq> [] then path @ lit ''.__more__'' else lit ''__more__''),
                label = lit ''+'' @ dec_nat (length kvs - 10) @ lit '' more'',
                type = KMore, sizeHint = 1\<rparr>]
         else [])
    \<and> walk numstr maxNodes (JArray xs) path depth nodes =
      foldl (\<lambda>acc ix. walk numstr maxNodes (snd ix)
               ((if path \<noteq> [] then path else lit ''root'')
                  @ lit ''['' @ dec_nat (fst ix) @ lit '']'')
               (depth + 1) acc)
        (nodes @ [\<lparr>keyPath = path, label = (if path \<noteq> [] then path else lit ''root''),
                   type = KArray, sizeHint = max 1 (min 6 (length xs))\<rparr>])
        (zip [0 ..< length (take 10 xs)] (take 10 xs))
      @ (if 10 < length xs
         then [\<lparr>keyPath = (if path \<noteq> [] then path else lit ''root'') @ lit ''.__more__'',
                label = lit ''+'' @ dec_nat (length xs - 10) @ lit '' more'',
                type = KMore, sizeHint = 1\<rparr>]
         else [])
    \<and> (take 10 kvs' = take 10 kvs \<and> length kvs' = length kvs \<longrightarrow>
         walk numstr maxNodes (JObject kvs') path depth nodes
           = walk numstr maxNodes (JObject kvs) path depth nodes)
    \<and> (take 10 xs' = take 10 xs \<and> length xs' = length xs \<longrightarrow>
         walk numstr maxNodes (JArray xs') path depth nodes
           = walk numstr maxNodes (JArray xs) path depth nodes)"
proof (intro conjI impI)
  show "walk numstr maxNodes (JObject kvs') path depth nodes
           = walk numstr maxNodes (JObject kvs) path depth nodes"
    if "take 10 kvs' = take 10 kvs \<and> length kvs' = length kvs"
    using that by (simp only: walk_object [OF assms])
  show "walk numstr maxNodes (JArray xs') path depth nodes
           = walk numstr maxNodes (JArray xs) path depth nodes"
    if "take 10 xs' = take 10 xs \<and> length xs' = length xs"
    using that by (simp only: walk_array [OF assms])
qed (use assms in \<open>simp_all add: walk_object walk_array pushNode_def or_root_def Let_def
       enumerate_eq_zip\<close>)

theorem walk_width_cutoff_witness:
  "(0::nat) < 60 \<and> (0::nat) \<le> 3 \<and>
   map label (walk dec_nat 60
     (JObject [(lit ''a'', JNull), (lit ''b'', JNull), (lit ''c'', JNull), (lit ''d'', JNull),
               (lit ''e'', JNull), (lit ''f'', JNull), (lit ''g'', JNull), (lit ''h'', JNull),
               (lit ''i'', JNull), (lit ''j'', JNull), (lit ''k'', JNull), (lit ''l'', JNull),
               (lit ''m'', JNull), (lit ''n'', JNull), (lit ''o'', JNull)]) [] 0 [])
   = [lit ''root'', lit ''a: null'', lit ''b: null'', lit ''c: null'', lit ''d: null'',
      lit ''e: null'', lit ''f: null'', lit ''g: null'', lit ''h: null'', lit ''i: null'',
      lit ''j: null'', lit ''+5 more'']
   \<and> walk dec_nat 60
     (JObject [(lit ''a'', JNull), (lit ''b'', JNull), (lit ''c'', JNull), (lit ''d'', JNull),
               (lit ''e'', JNull), (lit ''f'', JNull), (lit ''g'', JNull), (lit ''h'', JNull),
               (lit ''i'', JNull), (lit ''j'', JNull), (lit ''p'', JBoolean True),
               (lit ''q'', JString (lit ''x'')), (lit ''r'', JNull), (lit ''s'', JArray []),
               (lit ''t'', JNull)]) [] 0 []
     = walk dec_nat 60
     (JObject [(lit ''a'', JNull), (lit ''b'', JNull), (lit ''c'', JNull), (lit ''d'', JNull),
               (lit ''e'', JNull), (lit ''f'', JNull), (lit ''g'', JNull), (lit ''h'', JNull),
               (lit ''i'', JNull), (lit ''j'', JNull), (lit ''k'', JNull), (lit ''l'', JNull),
               (lit ''m'', JNull), (lit ''n'', JNull), (lit ''o'', JNull)]) [] 0 []
   \<and> map label (walk dec_nat 60 (JArray (replicate 12 JNull)) [] 0 [])
   = [lit ''root'', lit ''root[0]: null'', lit ''root[1]: null'', lit ''root[2]: null'',
      lit ''root[3]: null'', lit ''root[4]: null'', lit ''root[5]: null'',
      lit ''root[6]: null'', lit ''root[7]: null'', lit ''root[8]: null'',
      lit ''root[9]: null'', lit ''+2 more'']
   \<and> walk dec_nat 60 (JArray (replicate 10 JNull @ [JBoolean True, JArray []])) [] 0 []
     = walk dec_nat 60 (JArray (replicate 12 JNull)) [] 0 []"
  using walk_width_cutoff [of "[]" 60 0 dec_nat
     "[(lit ''a'', JNull), (lit ''b'', JNull), (lit ''c'', JNull), (lit ''d'', JNull),
       (lit ''e'', JNull), (lit ''f'', JNull), (lit ''g'', JNull), (lit ''h'', JNull),
       (lit ''i'', JNull), (lit ''j'', JNull), (lit ''k'', JNull), (lit ''l'', JNull),
       (lit ''m'', JNull), (lit ''n'', JNull), (lit ''o'', JNull)]" "[]"
     "replicate 12 JNull"
     "[(lit ''a'', JNull), (lit ''b'', JNull), (lit ''c'', JNull), (lit ''d'', JNull),
       (lit ''e'', JNull), (lit ''f'', JNull), (lit ''g'', JNull), (lit ''h'', JNull),
       (lit ''i'', JNull), (lit ''j'', JNull), (lit ''p'', JBoolean True),
       (lit ''q'', JString (lit ''x'')), (lit ''r'', JNull), (lit ''s'', JArray []),
       (lit ''t'', JNull)]"
     "replicate 10 JNull @ [JBoolean True, JArray []]"]
  by (simp add: walk_cases pushNode_def or_root_def lit_def dec_nat.simps digit_def
        eval_nat_numeral enumerate_eq_zip upt_rec)

text \<open>An array of twelve elements: ten children and the marker \<open>+2 more\<close>.\<close>

lemma array_of_twelve:
  "map (\<lambda>n. (keyPath n, label n, type n)) (jsonToNodes dec_nat (JArray (replicate 12 JNull)) 60)
   = [([], lit ''root'', KArray),
      (lit ''root[0]'', lit ''root[0]: null'', KNull),
      (lit ''root[1]'', lit ''root[1]: null'', KNull),
      (lit ''root[2]'', lit ''root[2]: null'', KNull),
      (lit ''root[3]'', lit ''root[3]: null'', KNull),
      (lit ''root[4]'', lit ''root[4]: null'', KNull),
      (lit ''root[5]'', lit ''root[5]: null'', KNull),
      (lit ''root[6]'', lit ''root[6]: null'', KNull),
      (lit ''root[7]'', lit ''root[7]: null'', KNull),
      (lit ''root[8]'', lit ''root[8]: null'', KNull),
      (lit ''root[9]'', lit ''root[9]: null'', KNull),
      (lit ''root.__more__'', lit ''+2 more'', KMore)]"
  by (simp add: jsonToNodes_def walk_cases pushNode_def or_root_def lit_def dec_nat.simps
        digit_def eval_nat_numeral enumerate_eq_zip upt_rec)

text \<open>
  C9. A call of \<open>walk\<close> on a string at depth at most 3 and below the cap appends one
  node of kind \<open>string\<close> labelled \<open><path or 'root'>: "<preview>"\<close>; the preview is the
  string itself when it has at most 18 code units, and its first 18 code units followed
  by one ellipsis otherwise.
\<close>

theorem walk_string_preview:
  "length nodes < maxNodes \<Longrightarrow> depth \<le> 3 \<Longrightarrow>
   walk numstr maxNodes (JString s) path depth nodes =
     nodes @ [\<lparr>keyPath = path,
               label = (if path \<noteq> [] then path else lit ''root'') @ lit '': \"''
                        @ (if 18 < length s then take 18 s @ [ellipsis] else s) @ lit ''\"'',
               type = KString, sizeHint = 1\<rparr>]"
  by (simp add: walk_string pushNode_def or_root_def)

theorem walk_string_preview_witness:
  "(0::nat) < 60 \<and> (1::nat) \<le> 3 \<and>
   walk dec_nat 60 (JString (lit ''abcdefghijklmnopqrstuvwxy'')) (lit ''s'') 1 []
     = [\<lparr>keyPath = lit ''s'',
         label = lit ''s: \"abcdefghijklmnopqr'' @ [ellipsis] @ lit ''\"'',
         type = KString, sizeHint = 1\<rparr>]"
  using walk_string_preview [of "[]" 60 1 dec_nat "lit ''abcdefghijklmnopqrstuvwxy''"
      "lit ''s''"]
  by (simp add: lit_def)


section \<open>The cap during the traversal\<close>

lemma more_push_bound:
  "length n2 \<le> m + (4 - (d + 1)) \<Longrightarrow> d \<le> 3 \<Longrightarrow>
   length (if c then pushNode kp lbl ty sz n2 else n2) \<le> m + (4 - d)"
  unfolding pushNode_def by (cases c) auto

lemma walk_length_bound:
  "length nodes \<le> maxNodes + (4 - depth)
   \<Longrightarrow> length (walk numstr maxNodes v path depth nodes) \<le> maxNodes + (4 - depth)"
proof (induction numstr maxNodes v path depth nodes rule: walk.induct)
  case (1 numstr maxNodes v path depth nodes)
  show ?case
  proof (cases "maxNodes \<le> length nodes")
    case True
    then show ?thesis using "1.prems" by (simp add: walk_at_cap)
  next
    case below: False
    show ?thesis
    proof (cases "3 < depth")
      case True
      then show ?thesis using below by (simp add: walk_deep pushNode_def)
    next
      case False
      with below have c: "\<not> maxNodes \<le> length nodes" "\<not> 3 < depth" by auto
      then have c': "length nodes < maxNodes" "depth \<le> 3" by auto
      let ?B = "\<lambda>ns::node list. length ns \<le> maxNodes + (4 - (depth + 1))"
      show ?thesis
      proof (cases v)
        case (JObject kvs)
        let ?n1 = "pushNode path (or_root path) KObject (max 1 (min 6 (length kvs))) nodes"
        have b1: "?B ?n1" using c' by (simp add: pushNode_def)
        have "?B (foldl (\<lambda>acc kv. walk numstr maxNodes (snd kv)
                            (if path \<noteq> [] then path @ lit ''.'' @ fst kv else fst kv)
                            (depth + 1) acc) ?n1 (take 10 kvs))"
          by (rule foldl_invariant [where I = ?B, OF b1])
             (rule "1.IH"(2) [OF c JObject refl], assumption+)
        then show ?thesis unfolding JObject walk_object [OF c'] Let_def
          by (rule more_push_bound) (rule c')
      next
        case (JArray xs)
        let ?n1 = "pushNode path (or_root path) KArray (max 1 (min 6 (length xs))) nodes"
        have b1: "?B ?n1" using c' by (simp add: pushNode_def)
        have "?B (foldl (\<lambda>acc ix. walk numstr maxNodes (snd ix)
                            (or_root path @ lit ''['' @ dec_nat (fst ix) @ lit '']'')
                            (depth + 1) acc) ?n1 (enumerate 0 (take 10 xs)))"
          by (rule foldl_invariant [where I = ?B, OF b1])
             (rule "1.IH"(1) [OF c JArray refl], assumption+)
        then show ?thesis unfolding JArray walk_array [OF c'] Let_def
          by (rule more_push_bound) (rule c')
      qed (use c' in \<open>auto simp: walk_cases pushNode_def\<close>)
    qed
  qed
qed

lemma only_more_trans:
  assumes "\<exists>ms. b = a @ ms \<and> (\<forall>j<length ms. m \<le> length a + j \<longrightarrow> type (ms ! j) = KMore)"
    and "\<exists>ms. c = b @ ms \<and> (\<forall>j<length ms. m \<le> length b + j \<longrightarrow> type (ms ! j) = KMore)"
  shows "\<exists>ms. c = a @ ms \<and> (\<forall>j<length ms. m \<le> length a + j \<longrightarrow> type (ms ! j) = KMore)"
proof -
  from assms(1) obtain ms1 where 1: "b = a @ ms1"
    "\<forall>j<length ms1. m \<le> length a + j \<longrightarrow> type (ms1 ! j) = KMore" by blast
  from assms(2) obtain ms2 where 2: "c = b @ ms2"
    "\<forall>j<length ms2. m \<le> length b + j \<longrightarrow> type (ms2 ! j) = KMore" by blast
  have "c = a @ (ms1 @ ms2)" using 1 2 by simp
  moreover have "\<forall>j<length (ms1 @ ms2). m \<le> length a + j \<longrightarrow> type ((ms1 @ ms2) ! j) = KMore"
  proof (intro allI impI)
    fix j assume j: "j < length (ms1 @ ms2)" "m \<le> length a + j"
    show "type ((ms1 @ ms2) ! j) = KMore"
    proof (cases "j < length ms1")
      case True
      then show ?thesis using 1(2) j by (simp add: nth_append)
    next
      case False
      then have "j - length ms1 < length ms2" "m \<le> length b + (j - length ms1)"
        using j 1(1) by auto
      then have "type (ms2 ! (j - length ms1)) = KMore" using 2(2) by blast
      then show ?thesis using False by (simp add: nth_append)
    qed
  qed
  ultimately show ?thesis by blast
qed

lemma only_more_push:
  "length a < m \<or> ty = KMore \<Longrightarrow>
   \<exists>ms. pushNode kp lbl ty sz a = a @ ms
        \<and> (\<forall>j<length ms. m \<le> length a + j \<longrightarrow> type (ms ! j) = KMore)"
  by (auto simp: pushNode_def)

lemma only_more_finish:
  assumes "\<exists>ms. n2 = a @ ms \<and> (\<forall>j<length ms. m \<le> length a + j \<longrightarrow> type (ms ! j) = KMore)"
  shows "\<exists>ms. (if c then pushNode kp lbl KMore sz n2 else n2) = a @ ms
            \<and> (\<forall>j<length ms. m \<le> length a + j \<longrightarrow> type (ms ! j) = KMore)"
proof (cases c)
  case True
  have "\<exists>ms. pushNode kp lbl KMore sz n2 = n2 @ ms
            \<and> (\<forall>j<length ms. m \<le> length n2 + j \<longrightarrow> type (ms ! j) = KMore)"
    by (simp add: only_more_push)
  with assms have "\<exists>ms. pushNode kp lbl KMore sz n2 = a @ ms
            \<and> (\<forall>j<length ms. m \<le> length a + j \<longrightarrow> type (ms ! j) = KMore)"
    by (rule only_more_trans)
  with True show ?thesis by simp
next
  case False
  with assms show ?thesis by simp
qed

lemma walk_appends:
  "\<exists>ms. walk numstr maxNodes v path depth nodes = nodes @ ms
       \<and> (\<forall>j<length ms. maxNodes \<le> length nodes + j \<longrightarrow> type (ms ! j) = KMore)"
proof (induction numstr maxNodes v path depth nodes rule: walk.induct)
  case (1 numstr maxNodes v path depth nodes)
  let ?S = "\<lambda>a b. \<exists>ms. b = a @ ms
       \<and> (\<forall>j<length ms. maxNodes \<le> length a + j \<longrightarrow> type (ms ! j) = KMore)"
  show ?case
  proof (cases "maxNodes \<le> length nodes")
    case True
    then show ?thesis by (simp add: walk_at_cap)
  next
    case below: False
    show ?thesis
    proof (cases "3 < depth")
      case True
      then show ?thesis using below by (simp add: walk_deep only_more_push)
    next
      case False
      with below have c: "\<not> maxNodes \<le> length nodes" "\<not> 3 < depth" by auto
      then have c': "length nodes < maxNodes" "depth \<le> 3" by auto
      show ?thesis
      proof (cases v)
        case (JObject kvs)
        let ?n1 = "pushNode path (or_root path) KObject (max 1 (min 6 (length kvs))) nodes"
        let ?n2 = "foldl (\<lambda>acc kv. walk numstr maxNodes (snd kv)
                            (if path \<noteq> [] then path @ lit ''.'' @ fst kv else fst kv)
                            (depth + 1) acc) ?n1 (take 10 kvs)"
        have s1: "?S nodes ?n1" using c' by (simp add: only_more_push)
        have "?S nodes ?n2"
        proof (rule foldl_invariant [where I = "?S nodes", OF s1])
          fix acc kv assume "kv \<in> set (take 10 kvs)" and acc: "?S nodes acc"
          then have "?S acc (walk numstr maxNodes (snd kv)
                            (if path \<noteq> [] then path @ lit ''.'' @ fst kv else fst kv)
                            (depth + 1) acc)"
            by (intro "1.IH"(2) [OF c JObject refl])
          with acc show "?S nodes (walk numstr maxNodes (snd kv)
                            (if path \<noteq> [] then path @ lit ''.'' @ fst kv else fst kv)
                            (depth + 1) acc)"
            by (rule only_more_trans)
        qed
        then show ?thesis unfolding JObject walk_object [OF c'] Let_def
          by (rule only_more_finish)
      next
        case (JArray xs)
        let ?n1 = "pushNode path (or_root path) KArray (max 1 (min 6 (length xs))) nodes"
        let ?n2 = "foldl (\<lambda>acc ix. walk numstr maxNodes (snd ix)
                            (or_root path @ lit ''['' @ dec_nat (fst ix) @ lit '']'')
                            (depth + 1) acc) ?n1 (enumerate 0 (take 10 xs))"
        have s1: "?S nodes ?n1" using c' by (simp add: only_more_push)
        have "?S nodes ?n2"
        proof (rule foldl_invariant [where I = "?S nodes", OF s1])
          fix acc ix assume "ix \<in> set (enumerate 0 (take 10 xs))" and acc: "?S nodes acc"
          then have "?S acc (walk numstr maxNodes (snd ix)
                            (or_root path @ lit ''['' @ dec_nat (fst ix) @ lit '']'')
                            (depth + 1) acc)"
            by (intro "1.IH"(1) [OF c JArray refl])
          with acc show "?S nodes (walk numstr maxNodes (snd ix)
                            (or_root path @ lit ''['' @ dec_nat (fst ix) @ lit '']'')
                            (depth + 1) acc)"
            by (rule only_more_trans)
        qed
        then show ?thesis unfolding JArray walk_array [OF c'] Let_def
          by (rule only_more_finish)
      qed (use c' in \<open>simp_all add: walk_cases only_more_push\<close>)
    qed
  qed
qed

text \<open>
  C2 (as the code has it). \<open>walk\<close> checks the accumulated count against the cap on
  entry, before it appends the node of a container, of a leaf or of a cut subtree: a
  call that finds the count at the cap returns the array as it is. The \<open>more\<close> marker
  is appended after the children without that check. So \<open>walk\<close> only appends, every
  node it appends at an index from \<open>maxNodes\<close> on is a \<open>more\<close> marker, and the count
  reached during the traversal from the root exceeds the cap by at most 4, one marker
  for each container depth 0 to 3; the final \<open>slice\<close> removes the excess.
\<close>

theorem walk_cap_enforcement:
  "(maxNodes \<le> length nodes \<longrightarrow> walk numstr maxNodes v path depth nodes = nodes)
   \<and> (\<exists>ms. walk numstr maxNodes v path depth nodes = nodes @ ms
          \<and> (\<forall>j<length ms. maxNodes \<le> length nodes + j \<longrightarrow> type (ms ! j) = KMore))
   \<and> length (walk numstr maxNodes v [] 0 []) \<le> maxNodes + 4"
proof (intro conjI impI)
  show "walk numstr maxNodes v path depth nodes = nodes" if "maxNodes \<le> length nodes"
    using that by (rule walk_at_cap)
  show "\<exists>ms. walk numstr maxNodes v path depth nodes = nodes @ ms
          \<and> (\<forall>j<length ms. maxNodes \<le> length nodes + j \<longrightarrow> type (ms ! j) = KMore)"
    by (rule walk_appends)
  show "length (walk numstr maxNodes v [] 0 []) \<le> maxNodes + 4"
    using walk_length_bound [of "[]" maxNodes 0 numstr v "[]"] by simp
qed

theorem walk_cap_enforcement_witness:
  "(1::nat) \<le> length [\<lparr>keyPath = [], label = lit ''root'', type = KArray, sizeHint = 6\<rparr>]
   \<and> walk dec_nat 1 JNull (lit ''root[0]'') 1
        [\<lparr>keyPath = [], label = lit ''root'', type = KArray, sizeHint = 6\<rparr>]
      = [\<lparr>keyPath = [], label = lit ''root'', type = KArray, sizeHint = 6\<rparr>]
   \<and> walk dec_nat 1 (JArray (replicate 11 JNull)) [] 0 []
      = [\<lparr>keyPath = [], label = lit ''root'', type = KArray, sizeHint = 6\<rparr>,
         \<lparr>keyPath = lit ''root.__more__'', label = lit ''+1 more'', type = KMore, sizeHint = 1\<rparr>]
   \<and> (1::nat) \<le> length ([] :: node list) + 1
   \<and> type ([\<lparr>keyPath = [], label = lit ''root'', type = KArray, sizeHint = 6\<rparr>,
         \<lparr>keyPath = lit ''root.__more__'', label = lit ''+1 more'', type = KMore, sizeHint = 1\<rparr>] ! 1)
        = KMore
   \<and> length (walk dec_nat 1 (JArray (replicate 11 JNull)) [] 0 []) \<le> 1 + 4"
  using walk_cap_enforcement [of 1
      "[\<lparr>keyPath = [], label = lit ''root'', type = KArray, sizeHint = 6\<rparr>]"
      dec_nat JNull "lit ''root[0]''" 1]
    walk_cap_enforcement [of 1 "[]" dec_nat "JArray (replicate 11 JNull)" "[]" 0]
  by (simp add: walk_cases pushNode_def or_root_def lit_def dec_nat.simps digit_def
        eval_nat_numeral enumerate_eq_zip upt_rec)

text \<open>
  C2 as the specification states it fails with the cap of the application: on an array
  of eleven arrays of six \<open>null\<close>s the traversal reaches the cap of 60 inside the ninth
  child, and the marker of the root is appended as node 61.
\<close>

theorem walk_cap_enforcement_counterexample:
  "\<not> length (walk dec_nat 60 (JArray (replicate 11 (JArray (replicate 6 JNull)))) [] 0 [])
       \<le> 60"
  by code_simp

section \<open>Totality\<close>

lemma for_each_foldl:
  assumes "\<And>a s. a \<in> set as \<Longrightarrow> f a s = Inr (g s a)"
  shows "for_each f as s = Inr (foldl g s as)"
  using assms by (induction as arbitrary: s) simp_all

lemma type_tag_simps:
  "type_tag JNull = T_null"
  "type_tag (JBoolean b) = T_boolean"
  "type_tag (JNumber n) = T_number"
  "type_tag (JString s) = T_string"
  "type_tag (JArray xs) = T_array"
  "type_tag (JObject kvs) = T_object"
  by (simp_all add: type_tag_def Array_isArray_def typeof_def)

lemma walk_rt_walk:
  "max 1 (5 - depth) \<le> stack \<Longrightarrow>
   walk_rt stack numstr maxNodes v path depth nodes = Inr (walk numstr maxNodes v path depth nodes)"
proof (induction numstr maxNodes v path depth nodes arbitrary: stack rule: walk.induct)
  case (1 numstr maxNodes v path depth nodes)
  from "1.prems" obtain k where stack: "stack = Suc k" by (cases stack) auto
  show ?case
  proof (cases "maxNodes \<le> length nodes")
    case True
    then show ?thesis by (simp add: stack walk_at_cap)
  next
    case below: False
    show ?thesis
    proof (cases "3 < depth")
      case True
      then show ?thesis using below by (simp add: stack walk_deep Let_def)
    next
      case False
      with below have c: "\<not> maxNodes \<le> length nodes" "\<not> 3 < depth" by auto
      then have c': "length nodes < maxNodes" "depth \<le> 3" by auto
      have k: "max 1 (5 - (depth + 1)) \<le> k" using "1.prems" c' stack by auto
      show ?thesis
      proof (cases v)
        case (JObject kvs)
        have "for_each (\<lambda>kv acc. walk_rt k numstr maxNodes (snd kv)
                      (if path \<noteq> [] then path @ lit ''.'' @ fst kv else fst kv)
                      (depth + 1) acc) (take 10 kvs) n1
          = Inr (foldl (\<lambda>acc kv. walk numstr maxNodes (snd kv)
                      (if path \<noteq> [] then path @ lit ''.'' @ fst kv else fst kv)
                      (depth + 1) acc) n1 (take 10 kvs))" for n1
          by (rule for_each_foldl) (rule "1.IH"(2) [OF c JObject refl _ k], assumption)
        then show ?thesis using c
          by (simp add: stack JObject walk_object [OF c'] type_tag_simps own_entries_def Let_def)
      next
        case (JArray xs)
        have "for_each (\<lambda>ix acc. walk_rt k numstr maxNodes (snd ix)
                      (or_root path @ lit ''['' @ dec_nat (fst ix) @ lit '']'')
                      (depth + 1) acc) (enumerate 0 (take 10 xs)) n1
          = Inr (foldl (\<lambda>acc ix. walk numstr maxNodes (snd ix)
                      (or_root path @ lit ''['' @ dec_nat (fst ix) @ lit '']'')
                      (depth + 1) acc) n1 (enumerate 0 (take 10 xs)))" for n1
          by (rule for_each_foldl) (rule "1.IH"(1) [OF c JArray refl _ k], assumption)
        then show ?thesis using c
          by (simp add: stack JArray walk_array [OF c'] type_tag_simps array_items_def Let_def)
      qed (use c c' in \<open>simp_all add: stack walk_cases type_tag_simps string_units_def
              number_value_def boolean_value_def Let_def\<close>)
    qed
  qed
qed

text \<open>
  C5. Extraction and layout return on every JSON value, whatever its nesting or size.
  With the failures of the runtime written out, five frames of call stack are enough
  for \<open>jsonToNodes\<close> on any value: it never fails with a TypeError, since each branch
  uses the value as its class allows, nor with a RangeError, since the depth cutoff
  bounds the nesting of calls; what it returns is the truncated sequence of at most
  \<open>maxNodes\<close> nodes, and the layout places each of them.
\<close>

theorem jsonToNodes_total:
  "5 \<le> stack \<Longrightarrow>
   jsonToNodes_rt stack numstr v maxNodes = Inr (jsonToNodes numstr v maxNodes)
   \<and> length (jsonToNodes numstr v maxNodes) \<le> maxNodes
   \<and> length (layout (jsonToNodes numstr v maxNodes)) = length (jsonToNodes numstr v maxNodes)"
  by (simp add: jsonToNodes_rt_def jsonToNodes_def walk_rt_walk layout_def)

theorem jsonToNodes_total_witness:
  "(5::nat) \<le> 5 \<and>
   jsonToNodes_rt 5 dec_nat
     (JObject [(lit ''a'', JObject [(lit ''b'', JObject [(lit ''c'', JObject [(lit ''d'',
        JObject [(lit ''e'', JNumber 1)])])])])]) 60
   = Inr [\<lparr>keyPath = [], label = lit ''root'', type = KObject, sizeHint = 1\<rparr>,
      \<lparr>keyPath = lit ''a'', label = lit ''a'', type = KObject, sizeHint = 1\<rparr>,
      \<lparr>keyPath = lit ''a.b'', label = lit ''a.b'', type = KObject, sizeHint = 1\<rparr>,
      \<lparr>keyPath = lit ''a.b.c'', label = lit ''a.b.c'', type = KObject, sizeHint = 1\<rparr>,
      \<lparr>keyPath = lit ''a.b.c.d'', label = lit ''a.b.c.d ('' @ [ellipsis] @ lit '' )'',
        type = KTruncated, sizeHint = 1\<rparr>]"
  using jsonToNodes_total [of 5 dec_nat
     "JObject [(lit ''a'', JObject [(lit ''b'', JObject [(lit ''c'', JObject [(lit ''d'',
        JObject [(lit ''e'', JNumber 1)])])])])]" 60]
  unfolding nested_five_levels by simp

text \<open>The bound of five frames is sharp: four are too few for five nested objects.\<close>

lemma four_frames_overflow:
  "jsonToNodes_rt 4 dec_nat
     (JObject [(lit ''a'', JObject [(lit ''b'', JObject [(lit ''c'', JObject [(lit ''d'',
        JObject [(lit ''e'', JNumber 1)])])])])]) 60 = Inl RangeError"
  by (simp add: jsonToNodes_rt_def eval_nat_numeral type_tag_simps own_entries_def
        pushNode_def Let_def)

section \<open>Layout\<close>

lemma dec_nat_78: "dec_nat 78 = lit ''78''"
  by (simp add: dec_nat.simps digit_def lit_def)

lemma dec_nat_56: "dec_nat 56 = lit ''56''"
  by (simp add: dec_nat.simps digit_def lit_def)

lemma js_rem_nonneg: "0 \<le> a \<Longrightarrow> 0 < b \<Longrightarrow> js_rem a b = a mod b"
  by (cases "a = 0") (simp_all add: js_rem_def)

lemma intToHsl_seed:
  "0 \<le> n \<Longrightarrow> intToHsl n 78 56 = lit ''hsl('' @ dec_nat (nat (n mod 360)) @ lit '' 78% 56%)''"
  by (simp add: intToHsl_def js_rem_nonneg dec_int_def dec_nat_78 dec_nat_56 lit_def Let_def)

lemma layout_nth: "i < length nodes \<Longrightarrow> layout nodes ! i = place i (nodes ! i)"
  by (simp add: layout_def nth_enumerate_eq)

lemma length_layout: "length (layout nodes) = length nodes"
  by (simp add: layout_def)

text \<open>
  C7. For every node sequence and every index \<open>i\<close> in it (the weight of a node being
  positive, as the data model has it), the \<open>i\<close>-th placed node has: as position the
  centre \<open>(0.55 * 900, 0.52 * 520)\<close> plus \<open>(radius * cos angle, 0.75 * radius * sin angle)\<close>
  with \<open>angle = i * 0.62\<close> and \<open>radius = 30 + i * 7.5\<close>, which is the exact value of
  the expression the source evaluates in doubles; as seed the hash of the path, else
  of the label, else of the decimal index; as colour the primary palette colour for an
  object, the success palette colour for an array, and otherwise the HSL colour of hue
  \<open>seed mod 360\<close>, saturation 78% and lightness 56%; as size the base diameter of its
  kind (object 64, array 58, string 44, other 42) plus \<open>min 30 (weight * 6)\<close>.
\<close>

theorem layout_placement:
  assumes "i < length nodes" and "0 < sizeHint (nodes ! i)"
  shows "ideal (pos_x (layout nodes ! i))
           = 0.55 * 900 + (30 + real i * 7.5) * cos (real i * 0.62)
       \<and> ideal (pos_y (layout nodes ! i))
           = 0.52 * 520 + 0.75 * (30 + real i * 7.5) * sin (real i * 0.62)
       \<and> seed (layout nodes ! i)
           = hashStringToInt (if keyPath (nodes ! i) \<noteq> [] then keyPath (nodes ! i)
                              else if label (nodes ! i) \<noteq> [] then label (nodes ! i)
                              else dec_nat i)
       \<and> fill (layout nodes ! i)
           = (if type (nodes ! i) = KObject then lit ''var(--accent-primary)''
              else if type (nodes ! i) = KArray then lit ''var(--accent-success)''
              else lit ''hsl('' @ dec_nat (nat (seed (layout nodes ! i) mod 360))
                     @ lit '' 78% 56%)'')
       \<and> diameter (layout nodes ! i)
           = (if type (nodes ! i) = KObject then 64 else if type (nodes ! i) = KArray then 58
              else if type (nodes ! i) = KString then 44 else 42)
             + min 30 (sizeHint (nodes ! i) * 6)"
  using assms
  by (simp add: layout_nth place_def Let_def viewBoxW_def viewBoxH_def intToHsl_seed
        hashStringToInt_nonneg)

theorem layout_placement_witness:
  "(0::nat) < length [\<lparr>keyPath = lit ''a'', label = lit ''a: null'', type = KNull, sizeHint = 1\<rparr>]
   \<and> ideal (pos_x (layout [\<lparr>keyPath = lit ''a'', label = lit ''a: null'', type = KNull, sizeHint = 1\<rparr>] ! 0)) = 525
   \<and> seed (layout [\<lparr>keyPath = lit ''a'', label = lit ''a: null'', type = KNull, sizeHint = 1\<rparr>] ! 0) = 468965076
   \<and> fill (layout [\<lparr>keyPath = lit ''a'', label = lit ''a: null'', type = KNull, sizeHint = 1\<rparr>] ! 0)
        = lit ''hsl(276 78% 56%)''
   \<and> diameter (layout [\<lparr>keyPath = lit ''a'', label = lit ''a: null'', type = KNull, sizeHint = 1\<rparr>] ! 0) = 48"
proof -
  have h: "hashStringToInt (lit ''a'') = 468965076"
    by (simp add: hashStringToInt_def lit_def Math_imul_def js_xor_def ToInt32_def)
  have d: "dec_nat 276 = lit ''276''"
    by (simp add: dec_nat.simps digit_def lit_def)
  show ?thesis
    using layout_placement [of 0 "[\<lparr>keyPath = lit ''a'', label = lit ''a: null'', type = KNull, sizeHint = 1\<rparr>]"]
    by (simp add: h d) (simp add: lit_def)
qed

text \<open>
  C8. \<open>layout\<close> is a function of the node sequence alone: it returns as many placed
  nodes as it is given nodes, in the same order (the \<open>i\<close>-th placed node is computed
  from \<open>i\<close> and the \<open>i\<close>-th node and keeps that node's fields), the empty sequence
  gives the empty placement, and equal node sequences give equal placements.
\<close>

theorem layout_pure:
  "length (layout nodes) = length nodes
   \<and> layout [] = []
   \<and> (\<forall>i<length nodes. layout nodes ! i = place i (nodes ! i)
          \<and> node.truncate (layout nodes ! i) = nodes ! i)
   \<and> (\<forall>nodes'. nodes' = nodes \<longrightarrow> layout nodes' = layout nodes)"
proof (intro conjI allI impI)
  show "length (layout nodes) = length nodes" by (rule length_layout)
  show "layout [] = []" by (simp add: layout_def)
  show "layout nodes ! i = place i (nodes ! i)" if "i < length nodes" for i
    using that by (rule layout_nth)
  show "node.truncate (layout nodes ! i) = nodes ! i" if "i < length nodes" for i
    using that by (simp add: layout_nth place_def Let_def node.truncate_def)
  show "layout nodes' = layout nodes" if "nodes' = nodes" for nodes'
    using that by simp
qed

theorem layout_pure_witness:
  "length (layout [\<lparr>keyPath = lit ''a'', label = lit ''a: null'', type = KNull, sizeHint = 1\<rparr>]) = 1
   \<and> node.truncate (layout [\<lparr>keyPath = lit ''a'', label = lit ''a: null'', type = KNull, sizeHint = 1\<rparr>] ! 0)
       = \<lparr>keyPath = lit ''a'', label = lit ''a: null'', type = KNull, sizeHint = 1\<rparr>"
  using layout_pure [of "[\<lparr>keyPath = lit ''a'', label = lit ''a: null'', type = KNull, sizeHint = 1\<rparr>]"]
  by (simp add: place_def Let_def node.truncate_def)


end
